theory Spec2Isabelle
  imports Main "HOL-Library.AList"
begin

section \<open>The expression engine of enaml/core/expression_engine.py\<close>

text \<open>
  The engine is a pair of attribute slots, each holding a reference to a map object; the
  write map holds references to list objects, and the lists and the read map hold
  references to handler objects. Maps and lists are mutable and shared by reference in
  Python, so they live in an explicit store indexed by address. Handler objects are
  opaque: only their identity (\<open>href\<close>) and what calling them does matter.
\<close>

subsection \<open>Objects and the store\<close>

type_synonym addr = nat
type_synonym href = nat
type_synonym owner = nat

text \<open>
  Exceptions. \<open>KeyError\<close> is what subscripting a map raises on a missing key (the
  spec calls it KeyNotFound or NoReadHandler); \<open>Raised\<close> is any failure raised by
  the body of a handler.
\<close>

datatype 'x exn = KeyError string | Raised 'x

text \<open>
  The store: one table per kind of object, an allocation counter shared by all of them
  (addresses below \<open>next_addr\<close> are taken), and \<open>world\<close>, everything else a handler
  can see and change (the owner objects and the rest of the program).
\<close>

record 'w state =
  rmap_objs :: "addr \<Rightarrow> (string \<times> href) list"
  wmap_objs :: "addr \<Rightarrow> (string \<times> addr) list"
  list_objs :: "addr \<Rightarrow> href list"
  next_addr :: addr
  world :: 'w

text \<open>class ExpressionEngine: the two members \<open>read_handlers\<close> and \<open>write_handlers\<close>.\<close>

record engine =
  read_handlers :: addr
  write_handlers :: addr

text \<open>
  \<open>ReadHandler.__call__(owner, name)\<close> and \<open>WriteHandler.__call__(owner, name, change)\<close>
  raise NotImplementedError in the two base classes and are implemented by subclasses
  that the source does not hold, so what a call does is a parameter: it runs on the whole
  state, the maps and lists of every engine included, and returns the value or the
  exception together with the state it leaves.
\<close>

type_synonym ('v, 'x, 'w) read_call =
  "href \<Rightarrow> owner \<Rightarrow> string \<Rightarrow> 'w state \<Rightarrow> ('x exn + 'v) \<times> 'w state"

type_synonym ('c, 'x, 'w) write_call =
  "href \<Rightarrow> owner \<Rightarrow> string \<Rightarrow> 'c \<Rightarrow> 'w state \<Rightarrow> ('x exn + unit) \<times> 'w state"

text \<open>The handler invocations made by one dispatch, in order, with their arguments.\<close>

type_synonym read_trace = "(href \<times> owner \<times> string) list"
type_synonym 'c write_trace = "(href \<times> owner \<times> string \<times> 'c) list"

subsection \<open>The map type\<close>

text \<open>
  Modelled from the spec: the class \<open>sortedmap\<close> is imported from the atom package and
  is not part of the source. The spec's handler registry is an ordered, string-keyed
  map with point lookup that fails on an absent key, assignment that overwrites or
  adds, and iteration over its items; it is kept here as an association list.
  \<open>m[key]\<close> is \<open>getitem\<close>, \<open>m[key] = v\<close> is \<open>setitem\<close>, \<open>del m[key]\<close> is \<open>delitem\<close>,
  \<open>m.items()\<close> is the list itself. The source subscripts \<open>read_handlers\<close> in \<open>read\<close>
  and \<open>write_handlers\<close> in \<open>write\<close> with the same expression \<open>m[name]\<close> on the same
  class, so both go through \<open>getitem\<close>.
\<close>

definition getitem :: "(string \<times> 'a) list \<Rightarrow> string \<Rightarrow> 'x exn + 'a" where
  "getitem m key = (case map_of m key of None \<Rightarrow> Inl (KeyError key) | Some v \<Rightarrow> Inr v)"

definition setitem :: "(string \<times> 'a) list \<Rightarrow> string \<Rightarrow> 'a \<Rightarrow> (string \<times> 'a) list" where
  "setitem m key v = AList.update key v m"

definition delitem :: "(string \<times> 'a) list \<Rightarrow> string \<Rightarrow> (string \<times> 'a) list" where
  "delitem m key = AList.delete key m"

subsection \<open>read\<close>

text \<open>\<^verbatim>\<open>return self.read_handlers[name](owner, name)\<close>\<close>

definition read ::
  "('v, 'x, 'w) read_call \<Rightarrow> engine \<Rightarrow> owner \<Rightarrow> string \<Rightarrow> 'w state
    \<Rightarrow> read_trace \<times> ('x exn + 'v) \<times> 'w state" where
  "read rcall self ownr name s =
     (case getitem (rmap_objs s (read_handlers self)) name of
        Inl e \<Rightarrow> ([], Inl e, s)
      | Inr handler \<Rightarrow>
          (case rcall handler ownr name s of
             (r, s') \<Rightarrow> ([(handler, ownr, name)], r, s')))"

subsection \<open>write\<close>

text \<open>
  The method \<open>write\<close> is \<open>write_op\<close> here (\<open>write\<close> is a command of Isabelle).

  \<^verbatim>\<open>for handler in self.write_handlers[name]: handler(owner, name, change)\<close>

  The subscript is evaluated once and gives a list object \<open>l\<close>. The loop then walks that
  object by index, reading its current length and element before every step, as a Python
  list iterator does: a handler that changes the list changes what the loop sees, and a
  handler that keeps appending to it keeps the loop running, which is the value \<open>None\<close>.
  An exception raised by a handler leaves the loop at once.
\<close>

partial_function (option) write_loop ::
  "('c, 'x, 'w) write_call \<Rightarrow> addr \<Rightarrow> nat \<Rightarrow> owner \<Rightarrow> string \<Rightarrow> 'c \<Rightarrow> 'c write_trace
    \<Rightarrow> 'w state \<Rightarrow> ('c write_trace \<times> ('x exn + unit) \<times> 'w state) option" where
  "write_loop wcall l i ownr name change tr s =
     (if i < length (list_objs s l) then
        (case wcall (list_objs s l ! i) ownr name change s of
           (Inl e, s') \<Rightarrow> Some (tr @ [(list_objs s l ! i, ownr, name, change)], Inl e, s')
         | (Inr u, s') \<Rightarrow>
             write_loop wcall l (Suc i) ownr name change
               (tr @ [(list_objs s l ! i, ownr, name, change)]) s')
      else Some (tr, Inr (), s))"

declare write_loop.simps [code]

definition write_op ::
  "('c, 'x, 'w) write_call \<Rightarrow> engine \<Rightarrow> owner \<Rightarrow> string \<Rightarrow> 'c \<Rightarrow> 'w state
    \<Rightarrow> ('c write_trace \<times> ('x exn + unit) \<times> 'w state) option" where
  "write_op wcall self ownr name change s =
     (case getitem (wmap_objs s (write_handlers self)) name of
        Inl e \<Rightarrow> Some ([], Inl e, s)
      | Inr l \<Rightarrow> write_loop wcall l 0 ownr name change [] s)"

subsection \<open>copy\<close>

text \<open>
  Allocation takes the next free address. \<open>sortedmap_copy\<close> is \<open>m.copy()\<close> on a read
  map: a new map object with the items of \<open>m\<close>. \<open>sortedmap_new\<close> is \<open>sortedmap()\<close>.
  \<open>list_slice\<close> is \<open>value[:]\<close>: a new list object with the elements of \<open>value\<close>.
  \<open>wmap_setitem\<close> is \<open>w[key] = v\<close> on the map object at \<open>w\<close>.
\<close>

definition sortedmap_copy :: "addr \<Rightarrow> 'w state \<Rightarrow> addr \<times> 'w state" where
  "sortedmap_copy m s =
     (next_addr s,
      s\<lparr>rmap_objs := (rmap_objs s)(next_addr s := rmap_objs s m),
        next_addr := Suc (next_addr s)\<rparr>)"

definition sortedmap_new :: "'w state \<Rightarrow> addr \<times> 'w state" where
  "sortedmap_new s =
     (next_addr s,
      s\<lparr>wmap_objs := (wmap_objs s)(next_addr s := []), next_addr := Suc (next_addr s)\<rparr>)"

definition list_slice :: "addr \<Rightarrow> 'w state \<Rightarrow> addr \<times> 'w state" where
  "list_slice l s =
     (next_addr s,
      s\<lparr>list_objs := (list_objs s)(next_addr s := list_objs s l),
        next_addr := Suc (next_addr s)\<rparr>)"

definition wmap_setitem :: "addr \<Rightarrow> string \<Rightarrow> addr \<Rightarrow> 'w state \<Rightarrow> 'w state" where
  "wmap_setitem w key v s = s\<lparr>wmap_objs := (wmap_objs s)(w := setitem (wmap_objs s w) key v)\<rparr>"

text \<open>
  \<^verbatim>\<open>for key, value in self.write_handlers.items(): w[key] = value[:]\<close>

  \<open>items()\<close> returns the items as a list of its own, so the loop walks a fixed list.
\<close>

fun copy_items :: "addr \<Rightarrow> (string \<times> addr) list \<Rightarrow> 'w state \<Rightarrow> 'w state" where
  "copy_items w [] s = s"
| "copy_items w ((key, val) # items) s =
     (case list_slice val s of
        (l, s') \<Rightarrow> copy_items w items (wmap_setitem w key l s'))"

text \<open>
  \<^verbatim>\<open>
  new = ExpressionEngine()
  new.read_handlers = self.read_handlers.copy()
  new.write_handlers = w = sortedmap()
  for key, value in self.write_handlers.items():
      w[key] = value[:]
  return new
  \<close>
\<close>

definition copy :: "engine \<Rightarrow> 'w state \<Rightarrow> engine \<times> 'w state" where
  "copy self s =
     (case sortedmap_copy (read_handlers self) s of
        (r, s1) \<Rightarrow>
          (case sortedmap_new s1 of
             (w, s2) \<Rightarrow>
               (\<lparr>read_handlers = r, write_handlers = w\<rparr>,
                copy_items w (wmap_objs s2 (write_handlers self)) s2)))"

subsection \<open>Registration\<close>

text \<open>
  Modelled from the spec: the registration interface is not part of the source. The spec
  gives \<open>set_read_handler(name, handler)\<close>, where the last registration wins, and
  \<open>add_write_handler(name, handler)\<close>, where the chain grows; removing a binding deletes
  the name from the map. Adding a write handler to a name with no chain makes a new list
  for it.
\<close>

definition set_read_handler :: "engine \<Rightarrow> string \<Rightarrow> href \<Rightarrow> 'w state \<Rightarrow> 'w state" where
  "set_read_handler self name h s =
     s\<lparr>rmap_objs := (rmap_objs s)
         (read_handlers self := setitem (rmap_objs s (read_handlers self)) name h)\<rparr>"

definition add_write_handler :: "engine \<Rightarrow> string \<Rightarrow> href \<Rightarrow> 'w state \<Rightarrow> 'w state" where
  "add_write_handler self name h s =
     (case map_of (wmap_objs s (write_handlers self)) name of
        Some l \<Rightarrow> s\<lparr>list_objs := (list_objs s)(l := list_objs s l @ [h])\<rparr>
      | None \<Rightarrow>
          wmap_setitem (write_handlers self) name (next_addr s)
            (s\<lparr>list_objs := (list_objs s)(next_addr s := [h]),
               next_addr := Suc (next_addr s)\<rparr>))"

definition remove_read_handler :: "engine \<Rightarrow> string \<Rightarrow> 'w state \<Rightarrow> 'w state" where
  "remove_read_handler self name s =
     s\<lparr>rmap_objs := (rmap_objs s)
         (read_handlers self := delitem (rmap_objs s (read_handlers self)) name)\<rparr>"

definition remove_write_handlers :: "engine \<Rightarrow> string \<Rightarrow> 'w state \<Rightarrow> 'w state" where
  "remove_write_handlers self name s =
     s\<lparr>wmap_objs := (wmap_objs s)
         (write_handlers self := delitem (wmap_objs s (write_handlers self)) name)\<rparr>"

datatype mutation =
  SetRead string href | AddWrite string href | RemoveRead string | RemoveWrite string

fun mutate :: "engine \<Rightarrow> mutation \<Rightarrow> 'w state \<Rightarrow> 'w state" where
  "mutate self (SetRead name h) s = set_read_handler self name h s"
| "mutate self (AddWrite name h) s = add_write_handler self name h s"
| "mutate self (RemoveRead name) s = remove_read_handler self name s"
| "mutate self (RemoveWrite name) s = remove_write_handlers self name s"

subsection \<open>What an engine holds\<close>

text \<open>
  The bindings of an engine in a state: the items of its read map, and the items of its
  write map with every list reference replaced by the elements of the list. Dispatch
  reaches the store through these only.

  An engine is well formed in a state when the objects it refers to have been allocated
  and the keys of its write map are distinct, as the keys of a map are.
\<close>

definition bindings ::
  "'w state \<Rightarrow> engine \<Rightarrow> (string \<times> href) list \<times> (string \<times> href list) list" where
  "bindings s E =
     (rmap_objs s (read_handlers E),
      map (\<lambda>(k, l). (k, list_objs s l)) (wmap_objs s (write_handlers E)))"

definition wf_engine :: "'w state \<Rightarrow> engine \<Rightarrow> bool" where
  "wf_engine s E \<longleftrightarrow>
     read_handlers E < next_addr s \<and> write_handlers E < next_addr s \<and>
     distinct (map fst (wmap_objs s (write_handlers E))) \<and>
     list_all (\<lambda>(k, l). l < next_addr s) (wmap_objs s (write_handlers E))"

text \<open>
  The list objects an engine refers to, and two engines that share no map object and no
  list object, all their lists allocated.
\<close>

definition lists_of :: "'w state \<Rightarrow> engine \<Rightarrow> addr set" where
  "lists_of s E = snd ` set (wmap_objs s (write_handlers E))"

definition separate :: "'w state \<Rightarrow> engine \<Rightarrow> engine \<Rightarrow> bool" where
  "separate s A B \<longleftrightarrow>
     read_handlers A \<noteq> read_handlers B \<and> write_handlers A \<noteq> write_handlers B \<and>
     lists_of s A \<inter> lists_of s B = {} \<and>
     (\<forall>l \<in> lists_of s A \<union> lists_of s B. l < next_addr s)"

subsection \<open>Handlers that leave the registrations alone\<close>

text \<open>
  Two states have the same registry when every map object and every list object holds
  the same contents in both. A handler keeps the registry when calling it never changes
  a map or a list object, whatever else it does to the world.
\<close>

definition same_registry :: "'w state \<Rightarrow> 'w state \<Rightarrow> bool" where
  "same_registry s s' \<longleftrightarrow>
     rmap_objs s' = rmap_objs s \<and> wmap_objs s' = wmap_objs s \<and> list_objs s' = list_objs s"

definition keeps_registry_r :: "('v, 'x, 'w) read_call \<Rightarrow> bool" where
  "keeps_registry_r rcall \<longleftrightarrow>
     (\<forall>h ownr name s. same_registry s (snd (rcall h ownr name s)))"

definition keeps_registry_w :: "('c, 'x, 'w) write_call \<Rightarrow> bool" where
  "keeps_registry_w wcall \<longleftrightarrow>
     (\<forall>h ownr name change s. same_registry s (snd (wcall h ownr name change s)))"

text \<open>
  A write handler whose body works on the world only: it neither reads nor changes a map
  or a list object. \<open>observed\<close> is what such handlers and the caller can tell of a
  \<open>write\<close>: the calls made, the outcome and the world left.
\<close>

definition on_world ::
  "(href \<Rightarrow> owner \<Rightarrow> string \<Rightarrow> 'c \<Rightarrow> 'w \<Rightarrow> ('x exn + unit) \<times> 'w) \<Rightarrow> ('c, 'x, 'w) write_call" where
  "on_world f h ownr name change s =
     (case f h ownr name change (world s) of (r, w) \<Rightarrow> (r, s\<lparr>world := w\<rparr>))"

definition observed ::
  "('c write_trace \<times> ('x exn + unit) \<times> 'w state) option
    \<Rightarrow> ('c write_trace \<times> ('x exn + unit) \<times> 'w) option" where
  "observed res = map_option (\<lambda>(tr, r, s). (tr, r, world s)) res"

text \<open>
  Calling the handlers of a fixed list one after the other, each on the state the one
  before left, until one raises. The loop of \<open>write\<close> is shown below to do exactly
  this when no handler changes the list it walks.
\<close>

fun call_each ::
  "('c, 'x, 'w) write_call \<Rightarrow> href list \<Rightarrow> owner \<Rightarrow> string \<Rightarrow> 'c \<Rightarrow> 'c write_trace
    \<Rightarrow> 'w state \<Rightarrow> 'c write_trace \<times> ('x exn + unit) \<times> 'w state" where
  "call_each wcall [] ownr name change tr s = (tr, Inr (), s)"
| "call_each wcall (h # hs) ownr name change tr s =
     (case wcall h ownr name change s of
        (Inl e, s') \<Rightarrow> (tr @ [(h, ownr, name, change)], Inl e, s')
      | (Inr u, s') \<Rightarrow> call_each wcall hs ownr name change (tr @ [(h, ownr, name, change)]) s')"

subsection \<open>A concrete engine\<close>

text \<open>
  The scenarios of the spec: a read handler \<open>square\<close> bound at \<open>y\<close>, computing
  \<open>owner.x * owner.x\<close>; the write handlers \<open>log_change\<close> and \<open>clamp_change\<close> bound at
  \<open>z\<close>. Beside them a handler \<open>failing\<close> whose body raises, bound at \<open>q\<close> between the
  other two, a name \<open>e\<close> bound to an empty list and a name \<open>t\<close> bound to three
  handlers that return. Any other handler is the base class, whose \<open>__call__\<close> raises
  NotImplementedError. A change is the pair of the old and the new value. The write
  handlers work on the world only.
\<close>

record demo_world =
  attr_x :: int
  attr_z :: int
  logged :: "(int \<times> int) list"

definition square :: href where "square = 0"
definition log_change :: href where "log_change = 1"
definition clamp_change :: href where "clamp_change = 2"
definition failing :: href where "failing = 3"

definition demo_rcall :: "(int, string, demo_world) read_call" where
  "demo_rcall h ownr name s =
     (if h = square then (Inr (attr_x (world s) * attr_x (world s)), s)
      else (Inl (Raised ''NotImplementedError''), s))"

definition demo_wbody ::
  "href \<Rightarrow> owner \<Rightarrow> string \<Rightarrow> int \<times> int \<Rightarrow> demo_world
    \<Rightarrow> (string exn + unit) \<times> demo_world" where
  "demo_wbody h ownr name change w =
     (if h = log_change then (Inr (), w\<lparr>logged := logged w @ [change]\<rparr>)
      else if h = clamp_change then (Inr (), w\<lparr>attr_z := min 100 (snd change)\<rparr>)
      else if h = failing then (Inl (Raised ''boom''), w)
      else (Inl (Raised ''NotImplementedError''), w))"

definition demo_wcall :: "(int \<times> int, string, demo_world) write_call" where
  "demo_wcall = on_world demo_wbody"

definition demo_state :: "demo_world state" where
  "demo_state =
     \<lparr>rmap_objs = (\<lambda>a. [])(0 := [(''y'', square)]),
      wmap_objs = (\<lambda>a. [])(1 := [(''z'', 2), (''q'', 3), (''e'', 4), (''t'', 5)]),
      list_objs = (\<lambda>a. [])(2 := [log_change, clamp_change],
                            3 := [log_change, failing, clamp_change],
                            4 := [],
                            5 := [log_change, clamp_change, log_change]),
      next_addr = 6,
      world = \<lparr>attr_x = 4, attr_z = 0, logged = []\<rparr>\<rparr>"

definition demo_engine :: engine where
  "demo_engine = \<lparr>read_handlers = 0, write_handlers = 1\<rparr>"

text \<open>The copy of that engine and the state the copy leaves.\<close>

definition demo_copy :: engine where
  "demo_copy = \<lparr>read_handlers = 6, write_handlers = 7\<rparr>"

definition demo_copied :: "demo_world state" where
  "demo_copied =
     \<lparr>rmap_objs = (\<lambda>a. [])(0 := [(''y'', square)], 6 := [(''y'', square)]),
      wmap_objs = (\<lambda>a. [])(1 := [(''z'', 2), (''q'', 3), (''e'', 4), (''t'', 5)],
                            7 := [(''z'', 8), (''q'', 9), (''e'', 10), (''t'', 11)]),
      list_objs = (\<lambda>a. [])(2 := [log_change, clamp_change],
                            3 := [log_change, failing, clamp_change],
                            4 := [],
                            5 := [log_change, clamp_change, log_change],
                            8 := [log_change, clamp_change],
                            9 := [log_change, failing, clamp_change],
                            10 := [],
                            11 := [log_change, clamp_change, log_change]),
      next_addr = 12,
      world = \<lparr>attr_x = 4, attr_z = 0, logged = []\<rparr>\<rparr>"

text \<open>Registrations made on one engine after the copy.\<close>

definition demo_mutations :: "mutation list" where
  "demo_mutations =
     [AddWrite ''z'' failing, SetRead ''y'' failing, RemoveWrite ''q'', AddWrite ''n'' square,
      RemoveRead ''y'']"

section \<open>Properties\<close>

subsection \<open>The loop of write on a list that no handler changes\<close>

lemma same_registry_refl: "same_registry s s"
  by (simp add: same_registry_def)

lemma same_registry_trans:
  "same_registry s s' \<Longrightarrow> same_registry s' s'' \<Longrightarrow> same_registry s s''"
  by (simp add: same_registry_def)

lemma write_loop_fixed_list:
  assumes keep: "keeps_registry_w wcall"
  shows "i \<le> length (list_objs s l) \<Longrightarrow>
    write_loop wcall l i ownr name change tr s =
      Some (call_each wcall (drop i (list_objs s l)) ownr name change tr s)"
proof (induction "length (list_objs s l) - i" arbitrary: i tr s)
  case 0
  then show ?case by (simp add: write_loop.simps)
next
  case (Suc k)
  then have lt: "i < length (list_objs s l)" by simp
  obtain r s' where call: "wcall (list_objs s l ! i) ownr name change s = (r, s')"
    by (cases "wcall (list_objs s l ! i) ownr name change s")
  have "same_registry s s'"
    using keep call unfolding keeps_registry_w_def by (metis snd_conv)
  then have same: "list_objs s' l = list_objs s l"
    by (simp add: same_registry_def)
  have dr: "drop i (list_objs s l) = list_objs s l ! i # drop (Suc i) (list_objs s l)"
    using lt by (simp add: Cons_nth_drop_Suc)
  show ?case
  proof (cases r)
    case (Inl e)
    then show ?thesis
      using lt call dr by (subst write_loop.simps) simp
  next
    case (Inr u)
    have "write_loop wcall l (Suc i) ownr name change
            (tr @ [(list_objs s l ! i, ownr, name, change)]) s' =
          Some (call_each wcall (drop (Suc i) (list_objs s' l)) ownr name change
            (tr @ [(list_objs s l ! i, ownr, name, change)]) s')"
      using Suc.hyps(1)[of s' "Suc i"] Suc.hyps(2) lt same by simp
    then show ?thesis
      using lt call dr Inr same by (subst write_loop.simps) simp
  qed
qed

lemma write_op_fixed_list:
  assumes "keeps_registry_w wcall"
    and "map_of (wmap_objs s (write_handlers E)) n = Some l"
  shows "write_op wcall E ownr n c s = Some (call_each wcall (list_objs s l) ownr n c [] s)"
  using assms write_loop_fixed_list [of wcall 0 s l ownr n c "[]"]
  by (simp add: write_op_def getitem_def)

lemma call_each_append:
  "call_each wcall (xs @ ys) ownr n c tr s =
     (case call_each wcall xs ownr n c tr s of
        (tr', Inl e, s') \<Rightarrow> (tr', Inl e, s')
      | (tr', Inr u, s') \<Rightarrow> call_each wcall ys ownr n c tr' s')"
  by (induction xs arbitrary: tr s) (auto split: prod.splits sum.splits)

lemma call_each_returns_trace:
  "call_each wcall xs ownr n c tr s = (tr', Inr u, s') \<Longrightarrow>
     tr' = tr @ map (\<lambda>g. (g, ownr, n, c)) xs"
proof (induction xs arbitrary: tr s)
  case Nil
  then show ?case by simp
next
  case (Cons h hs)
  obtain r s1 where call: "wcall h ownr n c s = (r, s1)"
    by (cases "wcall h ownr n c s")
  show ?case
  proof (cases r)
    case (Inl e)
    then show ?thesis using Cons.prems call by simp
  next
    case (Inr v)
    then have "call_each wcall hs ownr n c (tr @ [(h, ownr, n, c)]) s1 = (tr', Inr u, s')"
      using Cons.prems call by simp
    from Cons.IH [OF this] show ?thesis by simp
  qed
qed

lemma call_each_same_registry:
  "keeps_registry_w wcall \<Longrightarrow> same_registry s (snd (snd (call_each wcall xs ownr n c tr s)))"
proof (induction xs arbitrary: tr s)
  case Nil
  then show ?case by (simp add: same_registry_refl)
next
  case (Cons h hs)
  obtain r s' where call: "wcall h ownr n c s = (r, s')"
    by (cases "wcall h ownr n c s")
  have step: "same_registry s s'"
    using Cons.prems call unfolding keeps_registry_w_def by (metis snd_conv)
  show ?case
  proof (cases r)
    case (Inl e)
    then show ?thesis using call step by simp
  next
    case (Inr u)
    then show ?thesis
      using call step Cons.IH [OF Cons.prems, of s'] same_registry_trans by fastforce
  qed
qed

subsection \<open>Dispatch in terms of the bindings\<close>

lemma map_of_map_values:
  "map_of (map (\<lambda>(k, l). (k, f l)) al) k = map_option f (map_of al k)"
  by (induction al) auto

lemma map_of_bindings:
  "map_of (snd (bindings s E)) k =
     map_option (list_objs s) (map_of (wmap_objs s (write_handlers E)) k)"
  by (simp add: bindings_def map_of_map_values)

lemma read_by_bindings:
  "read rcall E ownr n s =
     (case map_of (fst (bindings s E)) n of
        None \<Rightarrow> ([], Inl (KeyError n), s)
      | Some h \<Rightarrow> ([(h, ownr, n)], rcall h ownr n s))"
  by (simp add: read_def getitem_def bindings_def split: option.splits prod.splits)

lemma write_by_bindings:
  assumes "keeps_registry_w wcall"
  shows "write_op wcall E ownr n c s =
     (case map_of (snd (bindings s E)) n of
        None \<Rightarrow> Some ([], Inl (KeyError n), s)
      | Some hs \<Rightarrow> Some (call_each wcall hs ownr n c [] s))"
proof (cases "map_of (wmap_objs s (write_handlers E)) n")
  case None
  then show ?thesis by (simp add: map_of_bindings write_op_def getitem_def)
next
  case (Some l)
  then show ?thesis
    using write_op_fixed_list [OF assms Some] by (simp add: map_of_bindings)
qed

lemma keeps_registry_on_world: "keeps_registry_w (on_world f)"
  by (simp add: keeps_registry_w_def on_world_def same_registry_def split: prod.splits)

lemma call_each_on_world:
  "world t = world s \<Longrightarrow>
   (case call_each (on_world f) hs ownr n c tr t of (tr', r, t') \<Rightarrow> (tr', r, world t')) =
   (case call_each (on_world f) hs ownr n c tr s of (tr', r, s') \<Rightarrow> (tr', r, world s'))"
proof (induction hs arbitrary: tr s t)
  case Nil
  then show ?case by simp
next
  case (Cons h hs)
  obtain r w where f: "f h ownr n c (world s) = (r, w)"
    by (cases "f h ownr n c (world s)")
  show ?case
  proof (cases r)
    case (Inl e)
    then show ?thesis using f Cons.prems by (simp add: on_world_def)
  next
    case (Inr u)
    have "world (t\<lparr>world := w\<rparr>) = world (s\<lparr>world := w\<rparr>)" by simp
    from Cons.IH [OF this] show ?thesis
      using f Inr Cons.prems by (simp add: on_world_def)
  qed
qed

lemma write_observed:
  assumes "bindings t E = bindings s E" and "world t = world s"
  shows "observed (write_op (on_world f) E ownr n c t) =
         observed (write_op (on_world f) E ownr n c s)"
  using assms call_each_on_world [OF assms(2), of f _ ownr n c "[]"]
  by (simp add: write_by_bindings [OF keeps_registry_on_world] observed_def
      split: option.splits)

subsection \<open>What copy allocates\<close>

lemma update_fresh_key: "k \<notin> fst ` set al \<Longrightarrow> AList.update k v al = al @ [(k, v)]"
  by (induction al) auto

lemma copy_items_next: "next_addr (copy_items w items s) = next_addr s + length items"
  by (induction w items s rule: copy_items.induct)
     (auto simp: list_slice_def wmap_setitem_def split: prod.splits)

lemma copy_items_rmap: "rmap_objs (copy_items w items s) = rmap_objs s"
  by (induction w items s rule: copy_items.induct)
     (auto simp: list_slice_def wmap_setitem_def split: prod.splits)

lemma copy_items_world: "world (copy_items w items s) = world s"
  by (induction w items s rule: copy_items.induct)
     (auto simp: list_slice_def wmap_setitem_def split: prod.splits)

lemma copy_items_wmap_other: "a \<noteq> w \<Longrightarrow> wmap_objs (copy_items w items s) a = wmap_objs s a"
  by (induction w items s rule: copy_items.induct)
     (auto simp: list_slice_def wmap_setitem_def split: prod.splits)

lemma copy_items_list_old: "a < next_addr s \<Longrightarrow> list_objs (copy_items w items s) a = list_objs s a"
  by (induction w items s rule: copy_items.induct)
     (auto simp: list_slice_def wmap_setitem_def split: prod.splits)

lemma copy_items_wmap:
  "distinct (map fst items) \<Longrightarrow> fst ` set items \<inter> fst ` set (wmap_objs s w) = {} \<Longrightarrow>
   wmap_objs (copy_items w items s) w =
     wmap_objs s w @ zip (map fst items) [next_addr s ..< next_addr s + length items]"
proof (induction w items s rule: copy_items.induct)
  case (1 w s)
  then show ?case by simp
next
  case (2 w key val items s)
  obtain l s' where sl: "list_slice val s = (l, s')" by (cases "list_slice val s")
  let ?s1 = "wmap_setitem w key l s'"
  have l: "l = next_addr s" and n1: "next_addr ?s1 = Suc (next_addr s)"
    and w1: "wmap_objs ?s1 w = wmap_objs s w @ [(key, next_addr s)]"
    using sl 2(3) by (auto simp: list_slice_def wmap_setitem_def setitem_def update_fresh_key)
  have "wmap_objs (copy_items w items ?s1) w =
     wmap_objs ?s1 w @ zip (map fst items) [next_addr ?s1 ..< next_addr ?s1 + length items]"
    using 2(1)[OF sl[symmetric]] 2(2,3) w1 by auto
  moreover have "[next_addr s ..< next_addr s + length ((key, val) # items)] =
      next_addr s # [Suc (next_addr s) ..< Suc (next_addr s) + length items]"
    by (simp add: upt_conv_Cons del: upt_Suc)
  ultimately show ?case
    using sl n1 w1 by (simp del: upt_Suc)
qed

lemma copy_items_list_new:
  "list_all (\<lambda>(k, l). l < next_addr s) items \<Longrightarrow> i < length items \<Longrightarrow>
   list_objs (copy_items w items s) (next_addr s + i) = list_objs s (snd (items ! i))"
proof (induction w items s arbitrary: i rule: copy_items.induct)
  case (1 w s)
  then show ?case by simp
next
  case (2 w key val items s)
  obtain l s' where sl: "list_slice val s = (l, s')" by (cases "list_slice val s")
  let ?s1 = "wmap_setitem w key l s'"
  have n1: "next_addr ?s1 = Suc (next_addr s)"
    and l1: "list_objs ?s1 = (list_objs s)(next_addr s := list_objs s val)"
    using sl by (auto simp: list_slice_def wmap_setitem_def)
  have all1: "list_all (\<lambda>(k, l). l < next_addr ?s1) items"
    using 2(2) n1 by (auto simp: list_all_iff)
  show ?case
  proof (cases i)
    case 0
    then show ?thesis
      using sl copy_items_list_old[of "next_addr s" ?s1 w items] n1 l1 by simp
  next
    case (Suc j)
    then have "j < length items" using 2(3) by simp
    from 2(1)[OF sl[symmetric] all1 this]
    have "list_objs (copy_items w items ?s1) (next_addr ?s1 + j) = list_objs ?s1 (snd (items ! j))" .
    moreover have "snd (items ! j) < next_addr s"
      using 2(2) nth_mem [OF \<open>j < length items\<close>]
      by (cases "items ! j") (auto simp: list_all_iff)
    ultimately show ?thesis
      using sl Suc n1 l1 by simp
  qed
qed

lemma copy_unfold:
  "copy E1 s =
     (\<lparr>read_handlers = next_addr s, write_handlers = Suc (next_addr s)\<rparr>,
      copy_items (Suc (next_addr s))
        (if write_handlers E1 = Suc (next_addr s) then [] else wmap_objs s (write_handlers E1))
        (s\<lparr>rmap_objs := (rmap_objs s)(next_addr s := rmap_objs s (read_handlers E1)),
           wmap_objs := (wmap_objs s)(Suc (next_addr s) := []),
           next_addr := Suc (Suc (next_addr s))\<rparr>))"
  by (simp add: copy_def sortedmap_copy_def sortedmap_new_def)

lemma copy_engine:
  "fst (copy E1 s) = \<lparr>read_handlers = next_addr s, write_handlers = Suc (next_addr s)\<rparr>"
  by (simp add: copy_unfold)

lemma copy_world: "world (snd (copy E1 s)) = world s"
  by (simp add: copy_unfold copy_items_world)

lemma copy_next:
  "write_handlers E1 < next_addr s \<Longrightarrow>
   next_addr (snd (copy E1 s)) =
     Suc (Suc (next_addr s)) + length (wmap_objs s (write_handlers E1))"
  by (simp add: copy_unfold copy_items_next)

lemma copy_rmap:
  "rmap_objs (snd (copy E1 s)) = (rmap_objs s)(next_addr s := rmap_objs s (read_handlers E1))"
  by (simp add: copy_unfold copy_items_rmap)

lemma copy_wmap_old:
  "a < next_addr s \<Longrightarrow> wmap_objs (snd (copy E1 s)) a = wmap_objs s a"
  by (simp add: copy_unfold copy_items_wmap_other)

lemma copy_list_old:
  "a < next_addr s \<Longrightarrow> list_objs (snd (copy E1 s)) a = list_objs s a"
  by (simp add: copy_unfold copy_items_list_old)

lemma copy_wmap_new:
  assumes "wf_engine s E1"
  shows "wmap_objs (snd (copy E1 s)) (Suc (next_addr s)) =
     zip (map fst (wmap_objs s (write_handlers E1)))
       [Suc (Suc (next_addr s)) ..<
        Suc (Suc (next_addr s)) + length (wmap_objs s (write_handlers E1))]"
proof -
  have "write_handlers E1 \<noteq> Suc (next_addr s)"
    and "distinct (map fst (wmap_objs s (write_handlers E1)))"
    using assms by (auto simp: wf_engine_def)
  then show ?thesis
    by (simp add: copy_unfold copy_items_wmap del: upt_Suc)
qed

lemma copy_list_new:
  assumes "wf_engine s E1" and "i < length (wmap_objs s (write_handlers E1))"
  shows "list_objs (snd (copy E1 s)) (Suc (Suc (next_addr s)) + i) =
     list_objs s (snd (wmap_objs s (write_handlers E1) ! i))"
proof -
  have ne: "write_handlers E1 \<noteq> Suc (next_addr s)"
    and "list_all (\<lambda>(k, l). l < next_addr s) (wmap_objs s (write_handlers E1))"
    using assms by (auto simp: wf_engine_def)
  then have "list_all (\<lambda>(k, l). l < Suc (Suc (next_addr s))) (wmap_objs s (write_handlers E1))"
    by (auto simp: list_all_iff)
  then show ?thesis
    using ne assms(2)
      copy_items_list_new [of "s\<lparr>rmap_objs := (rmap_objs s)(next_addr s := rmap_objs s (read_handlers E1)),
           wmap_objs := (wmap_objs s)(Suc (next_addr s) := []),
           next_addr := Suc (Suc (next_addr s))\<rparr>" "wmap_objs s (write_handlers E1)" i "Suc (next_addr s)"]
    by (simp add: copy_unfold)
qed

lemma wf_list_ref:
  "wf_engine s E \<Longrightarrow> i < length (wmap_objs s (write_handlers E)) \<Longrightarrow>
   snd (wmap_objs s (write_handlers E) ! i) < next_addr s"
proof -
  assume wf: "wf_engine s E" and i: "i < length (wmap_objs s (write_handlers E))"
  obtain k l where kl: "wmap_objs s (write_handlers E) ! i = (k, l)"
    by (cases "wmap_objs s (write_handlers E) ! i")
  then have "(k, l) \<in> set (wmap_objs s (write_handlers E))"
    using nth_mem [OF i] by simp
  then show ?thesis
    using wf kl by (auto simp: wf_engine_def list_all_iff)
qed

lemma copy_bindings:
  assumes wf: "wf_engine s E1"
  shows "bindings (snd (copy E1 s)) (fst (copy E1 s)) = bindings (snd (copy E1 s)) E1"
proof -
  let ?s' = "snd (copy E1 s)" and ?items = "wmap_objs s (write_handlers E1)"
  let ?n = "next_addr s"
  have r1: "read_handlers E1 < ?n" and w1: "write_handlers E1 < ?n"
    using wf by (auto simp: wf_engine_def)
  have rd: "rmap_objs ?s' ?n = rmap_objs ?s' (read_handlers E1)"
    using r1 by (simp add: copy_rmap)
  have "map (\<lambda>(k, l). (k, list_objs ?s' l)) (wmap_objs ?s' (Suc ?n)) =
        map (\<lambda>(k, l). (k, list_objs ?s' l)) ?items"
  proof (rule nth_equalityI)
    show "length (map (\<lambda>(k, l). (k, list_objs ?s' l)) (wmap_objs ?s' (Suc ?n))) =
          length (map (\<lambda>(k, l). (k, list_objs ?s' l)) ?items)"
      by (simp add: copy_wmap_new [OF wf] del: upt_Suc)
  next
    fix i
    assume "i < length (map (\<lambda>(k, l). (k, list_objs ?s' l)) (wmap_objs ?s' (Suc ?n)))"
    then have i: "i < length ?items"
      by (simp add: copy_wmap_new [OF wf] del: upt_Suc)
    have old: "list_objs ?s' (snd (?items ! i)) = list_objs s (snd (?items ! i))"
      using wf_list_ref [OF wf i] by (simp add: copy_list_old)
    show "map (\<lambda>(k, l). (k, list_objs ?s' l)) (wmap_objs ?s' (Suc ?n)) ! i =
          map (\<lambda>(k, l). (k, list_objs ?s' l)) ?items ! i"
      using i old copy_list_new [OF wf i]
      by (simp add: copy_wmap_new [OF wf] split_beta del: upt_Suc)
  qed
  then show ?thesis
    using rd w1 by (simp add: bindings_def copy_engine copy_wmap_old)
qed

subsection \<open>Engines that share no object\<close>

lemma separate_sym: "separate s A B \<Longrightarrow> separate s B A"
  by (auto simp: separate_def)

lemma bindings_eqI:
  assumes "rmap_objs t (read_handlers A) = rmap_objs s (read_handlers A)"
    and "wmap_objs t (write_handlers A) = wmap_objs s (write_handlers A)"
    and "\<And>l. l \<in> lists_of s A \<Longrightarrow> list_objs t l = list_objs s l"
  shows "bindings t A = bindings s A"
proof -
  have "list_objs t l = list_objs s l" if "(k, l) \<in> set (wmap_objs s (write_handlers A))" for k l
    using that assms(3) [of l] by (force simp: lists_of_def)
  then show ?thesis
    using assms(1,2) by (auto simp: bindings_def)
qed

lemma update_values: "snd ` set (AList.update k v al) \<subseteq> insert v (snd ` set al)"
  by (induction al) auto

lemma delete_values: "snd ` set (AList.delete k al) \<subseteq> snd ` set al"
  by (induction al) auto

lemma mutate_separate:
  assumes sep: "separate s A B"
  shows "separate (mutate B m s) A B \<and> bindings (mutate B m s) A = bindings s A"
proof (cases m)
  case (SetRead name h)
  have "bindings (mutate B m s) A = bindings s A"
    using sep by (intro bindings_eqI) (auto simp: SetRead set_read_handler_def separate_def)
  moreover have "separate (mutate B m s) A B"
    using sep by (auto simp: SetRead set_read_handler_def separate_def lists_of_def)
  ultimately show ?thesis by simp
next
  case (RemoveRead name)
  have "bindings (mutate B m s) A = bindings s A"
    using sep by (intro bindings_eqI) (auto simp: RemoveRead remove_read_handler_def separate_def)
  moreover have "separate (mutate B m s) A B"
    using sep by (auto simp: RemoveRead remove_read_handler_def separate_def lists_of_def)
  ultimately show ?thesis by simp
next
  case (RemoveWrite name)
  have "bindings (mutate B m s) A = bindings s A"
    using sep by (intro bindings_eqI) (auto simp: RemoveWrite remove_write_handlers_def separate_def)
  moreover have "lists_of (mutate B m s) B \<subseteq> lists_of s B"
    using delete_values [of name "wmap_objs s (write_handlers B)"]
    by (simp add: RemoveWrite remove_write_handlers_def lists_of_def delitem_def)
  moreover have "lists_of (mutate B m s) A = lists_of s A"
    using sep by (simp add: RemoveWrite remove_write_handlers_def lists_of_def separate_def)
  moreover have "next_addr (mutate B m s) = next_addr s"
    by (simp add: RemoveWrite remove_write_handlers_def)
  ultimately show ?thesis
    using sep unfolding separate_def by auto
next
  case (AddWrite name h)
  show ?thesis
  proof (cases "map_of (wmap_objs s (write_handlers B)) name")
    case (Some l)
    then have "l \<in> lists_of s B"
      by (force simp: lists_of_def dest: map_of_SomeD)
    then have notA: "l \<notin> lists_of s A"
      using sep by (auto simp: separate_def)
    have "bindings (mutate B m s) A = bindings s A"
      using notA by (intro bindings_eqI) (auto simp: AddWrite add_write_handler_def Some)
    moreover have "separate (mutate B m s) A B"
      using sep by (auto simp: AddWrite add_write_handler_def Some separate_def lists_of_def)
    ultimately show ?thesis by simp
  next
    case None
    have notA: "next_addr s \<notin> lists_of s A"
      using sep by (auto simp: separate_def)
    have "bindings (mutate B m s) A = bindings s A"
      using notA sep
      by (intro bindings_eqI)
         (auto simp: AddWrite add_write_handler_def None wmap_setitem_def separate_def)
    moreover have "lists_of (mutate B m s) B \<subseteq> insert (next_addr s) (lists_of s B)"
      using update_values [of name "next_addr s" "wmap_objs s (write_handlers B)"]
      by (simp add: AddWrite add_write_handler_def None wmap_setitem_def lists_of_def setitem_def)
    moreover have "lists_of (mutate B m s) A = lists_of s A"
      using sep
      by (simp add: AddWrite add_write_handler_def None wmap_setitem_def lists_of_def separate_def)
    moreover have "next_addr (mutate B m s) = Suc (next_addr s)"
      by (simp add: AddWrite add_write_handler_def None wmap_setitem_def)
    ultimately show ?thesis
      using sep notA unfolding separate_def by (auto simp: less_Suc_eq)
  qed
qed

lemma mutations_separate:
  "separate s A B \<Longrightarrow>
   separate (fold (mutate B) ms s) A B \<and> bindings (fold (mutate B) ms s) A = bindings s A"
proof (induction ms arbitrary: s)
  case Nil
  then show ?case by simp
next
  case (Cons m ms)
  from mutate_separate [OF Cons.prems, of m]
  have sep: "separate (mutate B m s) A B" and b: "bindings (mutate B m s) A = bindings s A"
    by simp_all
  from Cons.IH [OF sep] b show ?case by simp
qed

lemma mutate_world: "world (mutate E m s) = world s"
  by (cases m)
     (simp_all add: set_read_handler_def add_write_handler_def remove_read_handler_def
        remove_write_handlers_def wmap_setitem_def split: option.splits)

lemma mutations_world: "world (fold (mutate E) ms s) = world s"
  by (induction ms arbitrary: s) (simp_all add: mutate_world)

lemma copy_separate:
  assumes wf: "wf_engine s E1" and cp: "copy E1 s = (E2, s')"
  shows "separate s' E1 E2"
proof -
  let ?items = "wmap_objs s (write_handlers E1)"
  let ?n = "next_addr s"
  have s': "s' = snd (copy E1 s)" and E2: "E2 = fst (copy E1 s)"
    using cp by simp_all
  have r1: "read_handlers E1 < ?n" and w1: "write_handlers E1 < ?n"
    and old: "list_all (\<lambda>(k, l). l < ?n) ?items"
    using wf by (auto simp: wf_engine_def)
  have l1: "lists_of s' E1 = snd ` set ?items"
    using w1 by (simp add: lists_of_def s' copy_wmap_old)
  have "map snd (wmap_objs s' (write_handlers E2)) =
      [Suc (Suc ?n) ..< Suc (Suc ?n) + length ?items]"
    unfolding s' E2 using copy_wmap_new [OF wf] by (simp add: copy_engine del: upt_Suc)
  then have "set (map snd (wmap_objs s' (write_handlers E2))) =
      {Suc (Suc ?n) ..< Suc (Suc ?n) + length ?items}"
    by (simp del: upt_Suc)
  then have l2: "lists_of s' E2 = {Suc (Suc ?n) ..< Suc (Suc ?n) + length ?items}"
    by (simp add: lists_of_def)
  have nx: "next_addr s' = Suc (Suc ?n) + length ?items"
    unfolding s' using w1 by (rule copy_next)
  have lt: "l < ?n" if "l \<in> snd ` set ?items" for l
    using that old by (auto simp: list_all_iff)
  show ?thesis
    unfolding separate_def l1 l2 nx
    using r1 w1 lt by (auto simp: E2 copy_engine dest!: lt)
qed

subsection \<open>The concrete engine\<close>

lemmas demo_defs = demo_state_def demo_engine_def demo_rcall_def demo_wcall_def demo_wbody_def
  on_world_def square_def log_change_def clamp_change_def failing_def

lemma keeps_registry_demo_r: "keeps_registry_r demo_rcall"
  by (simp add: keeps_registry_r_def demo_rcall_def same_registry_def)

lemma keeps_registry_demo_w: "keeps_registry_w demo_wcall"
  by (simp add: demo_wcall_def keeps_registry_on_world)

lemma wf_demo: "wf_engine demo_state demo_engine"
  by (simp add: wf_engine_def demo_defs)

lemma copy_demo: "copy demo_engine demo_state = (demo_copy, demo_copied)"
  by (simp add: copy_def sortedmap_copy_def sortedmap_new_def list_slice_def wmap_setitem_def
      setitem_def demo_defs demo_copy_def demo_copied_def)

lemma write_demo_z:
  "write_op demo_wcall E 7 ''z'' (1, 200) demo_copied =
     (case map_of (wmap_objs demo_copied (write_handlers E)) ''z'' of
        None \<Rightarrow> Some ([], Inl (KeyError ''z''), demo_copied)
      | Some l \<Rightarrow> Some (call_each demo_wcall (list_objs demo_copied l) 7 ''z'' (1, 200) [] demo_copied))"
  using write_by_bindings [OF keeps_registry_demo_w, of E 7 "''z''" "(1, 200)" demo_copied]
  by (simp add: map_of_bindings split: option.splits)

lemmas mutate_defs = set_read_handler_def add_write_handler_def remove_read_handler_def
  remove_write_handlers_def wmap_setitem_def setitem_def delitem_def

subsection \<open>read\<close>

text \<open>
  C1. When the read map of the engine binds name \<open>n\<close> to handler \<open>h\<close>, \<open>read(owner, n)\<close>
  makes exactly one handler call, of \<open>h\<close> with the arguments \<open>(owner, n)\<close>, and returns
  what that call returns (value or exception, and the state it leaves) unchanged.
\<close>

theorem read_calls_bound_handler:
  assumes "map_of (rmap_objs s (read_handlers E)) n = Some h"
  shows "read rcall E ownr n s = ([(h, ownr, n)], rcall h ownr n s)"
  using assms by (simp add: read_def getitem_def split: prod.splits)

theorem read_calls_bound_handler_witness:
  "map_of (rmap_objs demo_state (read_handlers demo_engine)) ''y'' = Some square \<and>
   read demo_rcall demo_engine 7 ''y'' demo_state = ([(square, 7, ''y'')], Inr 16, demo_state)"
  using read_calls_bound_handler [of demo_state demo_engine "''y''" square demo_rcall 7]
  by (simp add: demo_defs)

text \<open>
  C6. When the read map of the engine has no binding for name \<open>m\<close>, \<open>read(owner, m)\<close>
  raises the lookup failure \<open>KeyError m\<close> (the spec's NoReadHandler) to its caller: no
  handler is called, no default value is returned, and the state is untouched.
\<close>

theorem read_unbound_raises_KeyError:
  assumes "map_of (rmap_objs s (read_handlers E)) m = None"
  shows "read rcall E ownr m s = ([], Inl (KeyError m), s)"
  using assms by (simp add: read_def getitem_def)

theorem read_unbound_raises_KeyError_witness:
  "map_of (rmap_objs demo_state (read_handlers demo_engine)) ''z'' = None \<and>
   read demo_rcall demo_engine 7 ''z'' demo_state = ([], Inl (KeyError ''z''), demo_state)"
  using read_unbound_raises_KeyError [of demo_state demo_engine "''z''" demo_rcall 7]
  by (simp add: demo_defs)

subsection \<open>write\<close>

text \<open>
  C2. When the write map binds name \<open>n\<close> to the list \<open>[h1, h2, h3]\<close>, no handler changes
  the registrations, and \<open>h1\<close> and \<open>h2\<close> return, \<open>write(owner, n, c)\<close> calls \<open>h1\<close>, then
  \<open>h2\<close> on the state \<open>h1\<close> left, then \<open>h3\<close> on the state \<open>h2\<close> left, each with the
  same arguments \<open>(owner, n, c)\<close>; it ends as the call of \<open>h3\<close> ends.
\<close>

theorem write_calls_chain_in_order:
  assumes "keeps_registry_w wcall"
    and "map_of (wmap_objs s (write_handlers E)) n = Some l"
    and "list_objs s l = [h1, h2, h3]"
    and "wcall h1 ownr n c s = (Inr u1, s1)"
    and "wcall h2 ownr n c s1 = (Inr u2, s2)"
  shows "write_op wcall E ownr n c s =
    Some ([(h1, ownr, n, c), (h2, ownr, n, c), (h3, ownr, n, c)], wcall h3 ownr n c s2)"
  using assms by (simp add: write_op_fixed_list split: prod.splits sum.splits)

theorem write_calls_chain_in_order_witness:
  "keeps_registry_w demo_wcall \<and>
   map_of (wmap_objs demo_state (write_handlers demo_engine)) ''t'' = Some 5 \<and>
   list_objs demo_state 5 = [log_change, clamp_change, log_change] \<and>
   demo_wcall log_change 7 ''t'' (1, 200) demo_state =
     (Inr (), demo_state\<lparr>world := \<lparr>attr_x = 4, attr_z = 0, logged = [(1, 200)]\<rparr>\<rparr>) \<and>
   demo_wcall clamp_change 7 ''t'' (1, 200)
       (demo_state\<lparr>world := \<lparr>attr_x = 4, attr_z = 0, logged = [(1, 200)]\<rparr>\<rparr>) =
     (Inr (), demo_state\<lparr>world := \<lparr>attr_x = 4, attr_z = 100, logged = [(1, 200)]\<rparr>\<rparr>) \<and>
   write_op demo_wcall demo_engine 7 ''t'' (1, 200) demo_state =
     Some ([(log_change, 7, ''t'', (1, 200)), (clamp_change, 7, ''t'', (1, 200)),
            (log_change, 7, ''t'', (1, 200))],
           Inr (),
           demo_state\<lparr>world := \<lparr>attr_x = 4, attr_z = 100, logged = [(1, 200), (1, 200)]\<rparr>\<rparr>)"
  using write_calls_chain_in_order [of demo_wcall demo_state demo_engine "''t''" 5
      log_change clamp_change log_change 7 "(1, 200)" "()"
      "demo_state\<lparr>world := \<lparr>attr_x = 4, attr_z = 0, logged = [(1, 200)]\<rparr>\<rparr>" "()"
      "demo_state\<lparr>world := \<lparr>attr_x = 4, attr_z = 100, logged = [(1, 200)]\<rparr>\<rparr>"]
    keeps_registry_demo_w
  by (simp add: demo_defs)

text \<open>
  C3. Writing to a name that the write map does not hold is not a no-op: on every engine,
  whatever else its write map holds, the subscript raises \<open>KeyError\<close>, as it does in
  \<open>read\<close>; no handler is called and the state is untouched. Writing to a name bound to an
  empty list is the no-op: it returns normally, calls no handler and leaves the state
  untouched. The two statements are independent of each other.
\<close>

theorem write_unbound_or_empty:
  "(map_of (wmap_objs s (write_handlers E)) m = None \<longrightarrow>
      write_op wcall E ownr m c s = Some ([], Inl (KeyError m), s)) \<and>
   (map_of (wmap_objs s (write_handlers E)) m' = Some l \<and> list_objs s l = [] \<longrightarrow>
      write_op wcall E ownr m' c s = Some ([], Inr (), s))"
  by (simp add: write_op_def getitem_def write_loop.simps)

theorem write_unbound_or_empty_witness:
  "map_of (wmap_objs demo_state (write_handlers demo_engine)) ''y'' = None \<and>
   write_op demo_wcall demo_engine 7 ''y'' (1, 200) demo_state =
     Some ([], Inl (KeyError ''y''), demo_state) \<and>
   map_of (wmap_objs demo_state (write_handlers demo_engine)) ''e'' = Some 4 \<and>
   list_objs demo_state 4 = [] \<and>
   write_op demo_wcall demo_engine 7 ''e'' (1, 200) demo_state = Some ([], Inr (), demo_state)"
  using write_unbound_or_empty [where s = demo_state and E = demo_engine and m = "''y''"
      and m' = "''e''" and l = 4 and wcall = demo_wcall and ownr = 7 and c = "(1, 200)"]
  by (simp add: demo_defs)

text \<open>
  The write map of the concrete engine has no key \<open>y\<close>, and writing to \<open>y\<close> does not
  return normally.
\<close>

theorem write_unbound_counterexample:
  "map_of (wmap_objs demo_state (write_handlers demo_engine)) ''y'' = None \<and>
   write_op demo_wcall demo_engine 7 ''y'' (1, 200) demo_state =
     Some ([], Inl (KeyError ''y''), demo_state) \<and>
   write_op demo_wcall demo_engine 7 ''y'' (1, 200) demo_state \<noteq>
     Some ([], Inr (), demo_state)"
  by (simp add: write_op_def getitem_def demo_defs)

text \<open>
  C7. When the write map binds name \<open>n\<close> to a list in which handler \<open>h\<close> stands after
  the handlers \<open>pre\<close> and before the handlers \<open>post\<close>, no handler changes the
  registrations, the handlers of \<open>pre\<close> all return and \<open>h\<close> raises \<open>e\<close>, then
  \<open>write(owner, n, c)\<close> raises that same \<open>e\<close> to its caller, in the state \<open>h\<close> left,
  having called the handlers of \<open>pre\<close> and then \<open>h\<close> and none of \<open>post\<close>.
\<close>

theorem write_stops_at_failing_handler:
  assumes "keeps_registry_w wcall"
    and "map_of (wmap_objs s (write_handlers E)) n = Some l"
    and "list_objs s l = pre @ h # post"
    and "call_each wcall pre ownr n c [] s = (tr, Inr (), s1)"
    and "wcall h ownr n c s1 = (Inl e, s2)"
  shows "write_op wcall E ownr n c s =
    Some (map (\<lambda>g. (g, ownr, n, c)) pre @ [(h, ownr, n, c)], Inl e, s2)"
proof -
  have "tr = map (\<lambda>g. (g, ownr, n, c)) pre"
    using call_each_returns_trace [OF assms(4)] by simp
  then show ?thesis
    using assms by (simp add: write_op_fixed_list call_each_append)
qed

theorem write_stops_at_failing_handler_witness:
  "keeps_registry_w demo_wcall \<and>
   map_of (wmap_objs demo_state (write_handlers demo_engine)) ''q'' = Some 3 \<and>
   list_objs demo_state 3 = [log_change] @ failing # [clamp_change] \<and>
   call_each demo_wcall [log_change] 7 ''q'' (1, 200) [] demo_state =
     ([(log_change, 7, ''q'', (1, 200))], Inr (),
      demo_state\<lparr>world := \<lparr>attr_x = 4, attr_z = 0, logged = [(1, 200)]\<rparr>\<rparr>) \<and>
   demo_wcall failing 7 ''q'' (1, 200)
       (demo_state\<lparr>world := \<lparr>attr_x = 4, attr_z = 0, logged = [(1, 200)]\<rparr>\<rparr>) =
     (Inl (Raised ''boom''),
      demo_state\<lparr>world := \<lparr>attr_x = 4, attr_z = 0, logged = [(1, 200)]\<rparr>\<rparr>) \<and>
   write_op demo_wcall demo_engine 7 ''q'' (1, 200) demo_state =
     Some ([(log_change, 7, ''q'', (1, 200)), (failing, 7, ''q'', (1, 200))],
           Inl (Raised ''boom''),
           demo_state\<lparr>world := \<lparr>attr_x = 4, attr_z = 0, logged = [(1, 200)]\<rparr>\<rparr>)"
  using write_stops_at_failing_handler [of demo_wcall demo_state demo_engine "''q''" 3
      "[log_change]" failing "[clamp_change]" 7 "(1, 200)"
      "[(log_change, 7, ''q'', (1, 200))]"
      "demo_state\<lparr>world := \<lparr>attr_x = 4, attr_z = 0, logged = [(1, 200)]\<rparr>\<rparr>"
      "Raised ''boom''"
      "demo_state\<lparr>world := \<lparr>attr_x = 4, attr_z = 0, logged = [(1, 200)]\<rparr>\<rparr>"]
    keeps_registry_demo_w
  by (simp add: demo_defs)

subsection \<open>Dispatch leaves the registrations alone\<close>

text \<open>
  C9. \<open>read\<close> and \<open>write\<close> make no change of their own to any map or list object: when
  no handler changes the registrations, every map and every list holds after
  \<open>read(owner, n)\<close> and after \<open>write(owner, m, c)\<close> what it held before, whether the
  call returned or raised; and \<open>write\<close> does end.
\<close>

theorem dispatch_keeps_registry:
  assumes "keeps_registry_r rcall" and "keeps_registry_w wcall"
  shows "same_registry s (snd (snd (read rcall E ownr n s))) \<and>
         (\<exists>tr r s'. write_op wcall E ownr m c s = Some (tr, r, s') \<and> same_registry s s')"
proof
  show "same_registry s (snd (snd (read rcall E ownr n s)))"
  proof (cases "map_of (rmap_objs s (read_handlers E)) n")
    case None
    then show ?thesis by (simp add: read_def getitem_def same_registry_refl)
  next
    case (Some h)
    then show ?thesis
      using assms(1) unfolding keeps_registry_r_def
      by (simp add: read_def getitem_def split: prod.splits)
  qed
next
  show "\<exists>tr r s'. write_op wcall E ownr m c s = Some (tr, r, s') \<and> same_registry s s'"
  proof (cases "map_of (wmap_objs s (write_handlers E)) m")
    case None
    then show ?thesis by (simp add: write_op_def getitem_def same_registry_refl)
  next
    case (Some l)
    obtain tr r s' where res: "call_each wcall (list_objs s l) ownr m c [] s = (tr, r, s')"
      by (cases "call_each wcall (list_objs s l) ownr m c [] s") auto
    have "same_registry s s'"
      using call_each_same_registry [OF assms(2), of s "list_objs s l" ownr m c "[]"] res by simp
    then show ?thesis
      using write_op_fixed_list [OF assms(2) Some] res by simp
  qed
qed

theorem dispatch_keeps_registry_witness:
  "keeps_registry_r demo_rcall \<and> keeps_registry_w demo_wcall \<and>
   same_registry demo_state (snd (snd (read demo_rcall demo_engine 7 ''y'' demo_state))) \<and>
   (\<exists>tr r s'. write_op demo_wcall demo_engine 7 ''z'' (1, 200) demo_state = Some (tr, r, s') \<and>
      same_registry demo_state s')"
  using dispatch_keeps_registry [OF keeps_registry_demo_r keeps_registry_demo_w,
      where s = demo_state and E = demo_engine and ownr = 7 and n = "''y''" and m = "''z''"
        and c = "(1, 200)"]
    keeps_registry_demo_r keeps_registry_demo_w
  by simp

subsection \<open>copy\<close>

text \<open>
  C10. \<open>copy\<close> does not change the engine it copies: after \<open>E2 = E1.copy()\<close> the read
  map of \<open>E1\<close> holds the same items, the write map of \<open>E1\<close> holds the same keys bound
  to the same list objects, every one of those lists holds the same handlers in the same
  order, and the world is as it was.
\<close>

theorem copy_leaves_source:
  assumes "wf_engine s E1" and "copy E1 s = (E2, s')"
  shows "rmap_objs s' (read_handlers E1) = rmap_objs s (read_handlers E1) \<and>
         wmap_objs s' (write_handlers E1) = wmap_objs s (write_handlers E1) \<and>
         list_all (\<lambda>(k, l). list_objs s' l = list_objs s l) (wmap_objs s (write_handlers E1)) \<and>
         world s' = world s"
proof -
  have s': "s' = snd (copy E1 s)" using assms(2) by simp
  have "read_handlers E1 < next_addr s" and "write_handlers E1 < next_addr s"
    and "list_all (\<lambda>(k, l). l < next_addr s) (wmap_objs s (write_handlers E1))"
    using assms(1) by (auto simp: wf_engine_def)
  then show ?thesis
    unfolding s' by (auto simp: copy_rmap copy_wmap_old copy_list_old copy_world list_all_iff)
qed

theorem copy_leaves_source_witness:
  "wf_engine demo_state demo_engine \<and>
   copy demo_engine demo_state = (demo_copy, demo_copied) \<and>
   rmap_objs demo_copied (read_handlers demo_engine) = [(''y'', square)] \<and>
   rmap_objs demo_state (read_handlers demo_engine) = [(''y'', square)] \<and>
   wmap_objs demo_copied (write_handlers demo_engine) =
     wmap_objs demo_state (write_handlers demo_engine) \<and>
   list_all (\<lambda>(k, l). list_objs demo_copied l = list_objs demo_state l)
     (wmap_objs demo_state (write_handlers demo_engine)) \<and>
   world demo_copied = world demo_state"
  using copy_leaves_source [OF wf_demo copy_demo] wf_demo copy_demo
  by (simp add: demo_defs demo_copied_def)

text \<open>
  C8. After \<open>E2 = E1.copy()\<close>: the read map of \<open>E2\<close> is another object than the read
  map of \<open>E1\<close>, not allocated before the copy, and holds the same items, so the same
  handler references under the same keys; the write map of \<open>E2\<close> is another object than
  the write map of \<open>E1\<close>, not allocated before the copy, and has the same keys in the
  same order; the lists of \<open>E2\<close> are pairwise different objects; and under every key
  that \<open>E1\<close> binds to a list \<open>l\<close>, \<open>E2\<close> binds a list \<open>l'\<close> that is another object than
  \<open>l\<close>, was not allocated before the copy, and holds the same handler references in the
  same order.
\<close>

theorem copy_structure:
  assumes "wf_engine s E1" and "copy E1 s = (E2, s')"
  shows "read_handlers E2 \<noteq> read_handlers E1 \<and> next_addr s \<le> read_handlers E2 \<and>
         rmap_objs s' (read_handlers E2) = rmap_objs s (read_handlers E1) \<and>
         write_handlers E2 \<noteq> write_handlers E1 \<and> next_addr s \<le> write_handlers E2 \<and>
         map fst (wmap_objs s' (write_handlers E2)) = map fst (wmap_objs s (write_handlers E1)) \<and>
         distinct (map snd (wmap_objs s' (write_handlers E2))) \<and>
         (\<forall>k l. map_of (wmap_objs s (write_handlers E1)) k = Some l \<longrightarrow>
            (\<exists>l'. map_of (wmap_objs s' (write_handlers E2)) k = Some l' \<and> l' \<noteq> l \<and>
                  next_addr s \<le> l' \<and> list_objs s' l' = list_objs s l))"
proof -
  let ?items = "wmap_objs s (write_handlers E1)"
  let ?n = "next_addr s"
  let ?new = "[Suc (Suc ?n) ..< Suc (Suc ?n) + length ?items]"
  have s': "s' = snd (copy E1 s)" and E2: "E2 = fst (copy E1 s)"
    using assms(2) by simp_all
  have r1: "read_handlers E1 < ?n" and w1: "write_handlers E1 < ?n"
    and dist: "distinct (map fst ?items)"
    using assms(1) by (auto simp: wf_engine_def)
  have wnew: "wmap_objs s' (write_handlers E2) = zip (map fst ?items) ?new"
    unfolding s' E2 using copy_wmap_new [OF assms(1)] by (simp add: copy_engine)
  have keys: "map fst (wmap_objs s' (write_handlers E2)) = map fst ?items"
    unfolding wnew by (simp del: upt_Suc)
  have refs: "map snd (wmap_objs s' (write_handlers E2)) = ?new"
    unfolding wnew by (simp del: upt_Suc)
  have lists: "\<exists>l'. map_of (wmap_objs s' (write_handlers E2)) k = Some l' \<and> l' \<noteq> l \<and>
                  ?n \<le> l' \<and> list_objs s' l' = list_objs s l"
    if "map_of ?items k = Some l" for k l
  proof -
    have "(k, l) \<in> set ?items" using that by (rule map_of_SomeD)
    then obtain i where i: "i < length ?items" and at: "?items ! i = (k, l)"
      by (auto simp: in_set_conv_nth)
    have l: "l < ?n" using wf_list_ref [OF assms(1) i] at by simp
    have "map_of (zip (map fst ?items) ?new) (map fst ?items ! i) = Some (?new ! i)"
      using i dist by (intro map_of_zip_nth) (simp_all del: upt_Suc)
    then have "map_of (wmap_objs s' (write_handlers E2)) k = Some (Suc (Suc ?n) + i)"
      using i at wnew by (simp del: upt_Suc)
    moreover have "list_objs s' (Suc (Suc ?n) + i) = list_objs s l"
      unfolding s' using copy_list_new [OF assms(1) i] at by simp
    ultimately show ?thesis using l by auto
  qed
  show ?thesis
    using r1 w1 keys refs lists
    by (simp add: E2 s' copy_engine copy_rmap del: upt_Suc)
qed

theorem copy_structure_witness:
  "wf_engine demo_state demo_engine \<and>
   copy demo_engine demo_state = (demo_copy, demo_copied) \<and>
   read_handlers demo_engine = 0 \<and> read_handlers demo_copy = 6 \<and>
   rmap_objs demo_copied 6 = [(''y'', square)] \<and>
   rmap_objs demo_state 0 = [(''y'', square)] \<and>
   write_handlers demo_engine = 1 \<and> write_handlers demo_copy = 7 \<and>
   wmap_objs demo_state 1 = [(''z'', 2), (''q'', 3), (''e'', 4), (''t'', 5)] \<and>
   wmap_objs demo_copied 7 = [(''z'', 8), (''q'', 9), (''e'', 10), (''t'', 11)] \<and>
   list_objs demo_copied 8 = list_objs demo_state 2 \<and>
   list_objs demo_copied 9 = list_objs demo_state 3 \<and>
   list_objs demo_copied 10 = list_objs demo_state 4 \<and>
   list_objs demo_copied 11 = list_objs demo_state 5 \<and>
   next_addr demo_state = 6"
  using copy_structure [OF wf_demo copy_demo] wf_demo copy_demo
  by (simp add: demo_defs demo_copy_def demo_copied_def)

text \<open>
  C5. Right after \<open>E2 = E1.copy()\<close>, for every name and owner, \<open>read\<close> on \<open>E2\<close> and
  on \<open>E1\<close> give the same result by the same handler call, and, when no handler changes
  the registrations, \<open>write\<close> on \<open>E2\<close> and on \<open>E1\<close> with the same arguments both end
  with the same sequence of handler calls, the same outcome and the same state.
\<close>

theorem copy_same_dispatch:
  assumes "wf_engine s E1" and "copy E1 s = (E2, s')" and "keeps_registry_w wcall"
  shows "read rcall E2 ownr n s' = read rcall E1 ownr n s' \<and>
         (\<exists>res. write_op wcall E1 ownr n c s' = Some res \<and>
                write_op wcall E2 ownr n c s' = Some res)"
proof -
  have "bindings s' E2 = bindings s' E1"
    using copy_bindings [OF assms(1)] assms(2) by simp
  then have rd: "read rcall E2 ownr n s' = read rcall E1 ownr n s'"
    and wr: "write_op wcall E2 ownr n c s' = write_op wcall E1 ownr n c s'"
    by (simp_all add: read_by_bindings write_by_bindings [OF assms(3)])
  have "write_op wcall E1 ownr n c s' \<noteq> None"
    by (simp add: write_by_bindings [OF assms(3)] del: not_None_eq split: option.splits)
  then obtain res where "write_op wcall E1 ownr n c s' = Some res"
    by blast
  then show ?thesis using rd wr by metis
qed

theorem copy_same_dispatch_witness:
  "wf_engine demo_state demo_engine \<and>
   copy demo_engine demo_state = (demo_copy, demo_copied) \<and>
   keeps_registry_w demo_wcall \<and>
   read demo_rcall demo_copy 7 ''y'' demo_copied = ([(square, 7, ''y'')], Inr 16, demo_copied) \<and>
   read demo_rcall demo_engine 7 ''y'' demo_copied = ([(square, 7, ''y'')], Inr 16, demo_copied) \<and>
   write_op demo_wcall demo_engine 7 ''z'' (1, 200) demo_copied =
     Some ([(log_change, 7, ''z'', (1, 200)), (clamp_change, 7, ''z'', (1, 200))], Inr (),
           demo_copied\<lparr>world := \<lparr>attr_x = 4, attr_z = 100, logged = [(1, 200)]\<rparr>\<rparr>) \<and>
   write_op demo_wcall demo_copy 7 ''z'' (1, 200) demo_copied =
     Some ([(log_change, 7, ''z'', (1, 200)), (clamp_change, 7, ''z'', (1, 200))], Inr (),
           demo_copied\<lparr>world := \<lparr>attr_x = 4, attr_z = 100, logged = [(1, 200)]\<rparr>\<rparr>)"
  using copy_same_dispatch [OF wf_demo copy_demo keeps_registry_demo_w,
      of demo_rcall 7 "''y''" "(1, 200)"]
    copy_same_dispatch [OF wf_demo copy_demo keeps_registry_demo_w,
      of demo_rcall 7 "''z''" "(1, 200)"]
    wf_demo copy_demo keeps_registry_demo_w
  by (simp add: write_demo_z read_def getitem_def)
     (simp add: demo_defs demo_copy_def demo_copied_def)

text \<open>
  C4. After \<open>E2 = E1.copy()\<close>, any sequence of registrations on \<open>E2\<close> (setting or
  removing a read handler, adding a write handler to a chain or to a new name, removing
  a chain) leaves the bindings of \<open>E1\<close> as they were, so that \<open>write\<close> on \<open>E1\<close> makes
  the same handler calls with the same outcome and the same effect on the world as before
  the registrations; and the same with \<open>E1\<close> and \<open>E2\<close> exchanged.
\<close>

theorem copy_independent:
  assumes "wf_engine s E1" and "copy E1 s = (E2, s')"
  shows "bindings (fold (mutate E2) ms s') E1 = bindings s' E1 \<and>
         observed (write_op (on_world f) E1 ownr n c (fold (mutate E2) ms s')) =
           observed (write_op (on_world f) E1 ownr n c s') \<and>
         bindings (fold (mutate E1) ms s') E2 = bindings s' E2 \<and>
         observed (write_op (on_world f) E2 ownr n c (fold (mutate E1) ms s')) =
           observed (write_op (on_world f) E2 ownr n c s')"
proof -
  have sep: "separate s' E1 E2" using assms by (rule copy_separate)
  have b1: "bindings (fold (mutate E2) ms s') E1 = bindings s' E1"
    using mutations_separate [OF sep] by simp
  have b2: "bindings (fold (mutate E1) ms s') E2 = bindings s' E2"
    using mutations_separate [OF separate_sym [OF sep]] by simp
  show ?thesis
    using b1 b2 write_observed [OF b1 mutations_world, of f ownr n c]
      write_observed [OF b2 mutations_world, of f ownr n c]
    by simp
qed

theorem copy_independent_witness:
  "wf_engine demo_state demo_engine \<and>
   copy demo_engine demo_state = (demo_copy, demo_copied) \<and>
   bindings (fold (mutate demo_copy) demo_mutations demo_copied) demo_copy =
     ([], [(''z'', [log_change, clamp_change, failing]), (''e'', []),
           (''t'', [log_change, clamp_change, log_change]), (''n'', [square])]) \<and>
   bindings (fold (mutate demo_copy) demo_mutations demo_copied) demo_engine =
     ([(''y'', square)],
      [(''z'', [log_change, clamp_change]), (''q'', [log_change, failing, clamp_change]),
       (''e'', []), (''t'', [log_change, clamp_change, log_change])]) \<and>
   bindings demo_copied demo_engine =
     ([(''y'', square)],
      [(''z'', [log_change, clamp_change]), (''q'', [log_change, failing, clamp_change]),
       (''e'', []), (''t'', [log_change, clamp_change, log_change])]) \<and>
   observed (write_op (on_world demo_wbody) demo_engine 7 ''z'' (1, 200)
       (fold (mutate demo_copy) demo_mutations demo_copied)) =
     observed (write_op (on_world demo_wbody) demo_engine 7 ''z'' (1, 200) demo_copied) \<and>
   bindings (fold (mutate demo_engine) demo_mutations demo_copied) demo_copy =
     bindings demo_copied demo_copy \<and>
   observed (write_op (on_world demo_wbody) demo_copy 7 ''z'' (1, 200)
       (fold (mutate demo_engine) demo_mutations demo_copied)) =
     observed (write_op (on_world demo_wbody) demo_copy 7 ''z'' (1, 200) demo_copied)"
proof -
  have "bindings (fold (mutate demo_copy) demo_mutations demo_copied) demo_copy =
     ([], [(''z'', [log_change, clamp_change, failing]), (''e'', []),
           (''t'', [log_change, clamp_change, log_change]), (''n'', [square])])"
    by (simp add: bindings_def demo_mutations_def mutate_defs demo_copy_def demo_copied_def
        demo_defs)
  moreover have "bindings demo_copied demo_engine =
     ([(''y'', square)],
      [(''z'', [log_change, clamp_change]), (''q'', [log_change, failing, clamp_change]),
       (''e'', []), (''t'', [log_change, clamp_change, log_change])])"
    by (simp add: bindings_def demo_copied_def demo_defs)
  ultimately show ?thesis
    using copy_independent [OF wf_demo copy_demo, of demo_mutations demo_wbody 7 "''z''" "(1, 200)"]
      wf_demo copy_demo
    by simp
qed

end
